theory Spec2Isabelle
  imports Main "HOL-Library.AList" "HOL-Library.Sublist"
begin

section \<open>Values, errors and service classes\<close>

text \<open>
  The repository is a dependency-injection container, \<^verbatim>\<open>src/di-sacala.ts\<close>. A container is
  a JavaScript object whose own properties are accessor properties created by
  \<^verbatim>\<open>Object.defineProperty\<close>; \<^verbatim>\<open>inject\<close> installs a memoising getter, \<^verbatim>\<open>injectContainer\<close> a
  forwarding getter. Containers are shared by reference (a forwarding getter keeps the other
  container alive and reads it later), so the model is a store: a map from object addresses
  to the ordered list of own properties.

  A value read from a container is \<open>undefined\<close>, a service instance (an object created by
  \<^verbatim>\<open>new dependency(this)\<close>, identified by its allocation number), or a member inherited from
  the prototype chain (the class's own methods and those of \<^verbatim>\<open>Object.prototype\<close>).
\<close>

datatype val = Undefined | Instance nat | Inherited string

text \<open>
  Both \<^verbatim>\<open>throw new Error(...)\<close> statements of the source build the message from a template;
  the message is kept as a string. \<open>TypeError\<close> is what the runtime raises when a
  non-configurable property is redefined or a member of \<open>undefined\<close> is used, and
  \<open>RangeError\<close> what it raises when the call stack is exhausted.
\<close>

datatype error = Error string | TypeError string | RangeError string

text \<open>
  A service class is supplied by the caller. The container uses two things of it:
  \<^verbatim>\<open>dependency.prototype.getServiceName()\<close> and \<^verbatim>\<open>new dependency(this)\<close>. The constructor
  body is caller code; it is represented by the actions it performs, in order:
  reading a property of the container it was given (\<open>Read\<close>), reading a property and using
  the result as an object (\<open>Require\<close>, which raises a \<open>TypeError\<close> on \<open>undefined\<close>),
  throwing (\<open>Throw\<close>), testing and setting a variable that outlives the call, such as a
  variable of the module that declares the class (\<open>Once flag body\<close> is
  \<^verbatim>\<open>if (!flag) { flag = true; body }\<close>), and catching what a block throws (\<open>Try body\<close> is
  \<^verbatim>\<open>try { body } catch { }\<close>). A constructor that reaches the end of its body returns a
  fresh instance that remembers what it read. So a constructor may behave differently from
  one call to the next, may go on after a read of the container has failed, and may read,
  while it runs, the very property whose getter is running it.
\<close>

datatype step =
    Read string
  | Require string
  | Throw string
  | Once string "step list"
  | Try "step list"

record service =
  getServiceName :: string
  ctor :: "step list"

text \<open>
  The two getters of the source. \<open>Lazy dependency instance\<close> is the closure
  \<^verbatim>\<open>() => instance ?? (instance = new dependency(this))\<close> together with its captured variable
  \<^verbatim>\<open>instance\<close> (initially \<open>undefined\<close>); the closure is reachable only through the property it
  was installed on, so the variable is stored with the property. \<open>Forward other key\<close> is
  \<^verbatim>\<open>() => other[key]\<close>.
\<close>

datatype getter = Lazy service val | Forward nat string

text \<open>
  The store. \<open>heap s obj\<close> lists the own properties of object \<open>obj\<close> in creation order
  (an address never allocated has none). \<open>objects\<close> records every instance constructed so
  far (class name and the values its constructor read); \<open>invocations\<close> records every call of
  a constructor, by the container and property whose getter made the call; \<open>flags\<close> holds
  the variables that the constructors have set.
\<close>

record state =
  heap :: "nat \<Rightarrow> (string \<times> getter) list"
  next_addr :: nat
  objects :: "(string \<times> (string \<times> val) list) list"
  invocations :: "(nat \<times> string) list"
  flags :: "string list"

definition init :: state where
  "init = \<lparr>heap = (\<lambda>_. []), next_addr = 0, objects = [], invocations = [], flags = []\<rparr>"

text \<open>\<^verbatim>\<open>new DiContainer()\<close>: the constructor body is empty, the object has no own property.\<close>

definition new_container :: "state \<Rightarrow> nat \<times> state" where
  "new_container s = (next_addr s, s\<lparr>next_addr := Suc (next_addr s)\<rparr>)"

section \<open>Own properties: membership and enumeration order\<close>

text \<open>\<^verbatim>\<open>has(obj, key)\<close> is \<^verbatim>\<open>Object.prototype.hasOwnProperty.call(obj, key)\<close>.\<close>

definition has :: "state \<Rightarrow> nat \<Rightarrow> string \<Rightarrow> bool" where
  "has s obj key = (map_of (heap s obj) key \<noteq> None)"

text \<open>
  \<^verbatim>\<open>for (const key in other)\<close> visits the enumerable string keys of an ordinary object: first
  the keys that are array indices (canonical decimal numerals below \<open>2^32 - 1\<close>) in ascending
  numeric order, then all other keys in creation order. Every property the container
  defines is enumerable, and nothing enumerable is inherited.
\<close>

definition is_digit :: "char \<Rightarrow> bool" where
  "is_digit c = (48 \<le> (of_char c :: nat) \<and> (of_char c :: nat) \<le> 57)"

definition decimal :: "string \<Rightarrow> nat" where
  "decimal ds = foldl (\<lambda>a c. 10 * a + (of_char c - 48)) 0 ds"

definition array_index :: "string \<Rightarrow> nat option" where
  "array_index k =
     (if k \<noteq> [] \<and> list_all is_digit k \<and> (k = ''0'' \<or> hd k \<noteq> CHR ''0'') \<and> decimal k < 2 ^ 32 - 1
      then Some (decimal k) else None)"

definition for_in_keys :: "(string \<times> getter) list \<Rightarrow> string list" where
  "for_in_keys ps =
     (let ks = map fst ps in
      map snd (sort_key fst (List.map_filter (\<lambda>k. map_option (\<lambda>i. (i, k)) (array_index k)) ks))
      @ filter (\<lambda>k. array_index k = None) ks)"

text \<open>
  What a property read finds when the object has no own property of that name: the members
  of \<^verbatim>\<open>DiContainer.prototype\<close> (the class declares \<^verbatim>\<open>constructor\<close>, \<^verbatim>\<open>inject\<close> and
  \<^verbatim>\<open>injectContainer\<close>), then those of \<^verbatim>\<open>Object.prototype\<close>, and \<open>undefined\<close> otherwise.
\<close>

definition class_members :: "string list" where
  "class_members = [''constructor'', ''inject'', ''injectContainer'']"

definition object_prototype_members :: "string list" where
  "object_prototype_members =
     [''constructor'', ''__defineGetter__'', ''__defineSetter__'', ''hasOwnProperty'',
      ''__lookupGetter__'', ''__lookupSetter__'', ''isPrototypeOf'', ''propertyIsEnumerable'',
      ''toString'', ''valueOf'', ''__proto__'', ''toLocaleString'']"

definition inherited :: "string \<Rightarrow> val" where
  "inherited key =
     (if key \<in> set class_members \<or> key \<in> set object_prototype_members
      then Inherited key else Undefined)"

section \<open>Reading a property\<close>

text \<open>The assignment \<^verbatim>\<open>instance = ...\<close> inside the getter installed on \<open>this[name]\<close>.\<close>

definition set_instance :: "nat \<Rightarrow> string \<Rightarrow> service \<Rightarrow> val \<Rightarrow> state \<Rightarrow> state" where
  "set_instance this name dependency v s =
     s\<lparr>heap := (heap s)(this := AList.update name (Lazy dependency v) (heap s this))\<rparr>"

text \<open>The object that \<^verbatim>\<open>new\<close> returns once the constructor body has finished.\<close>

definition allocate :: "service \<Rightarrow> (string \<times> val) list \<Rightarrow> state \<Rightarrow> val \<times> state" where
  "allocate dependency seen s =
     (Instance (length (objects s)),
      s\<lparr>objects := objects s @ [(getServiceName dependency, seen)]\<rparr>)"

text \<open>
  \<open>get fuel obj key s\<close> is the property read \<^verbatim>\<open>obj[key]\<close>; \<open>construct\<close> runs a constructor
  body with \<open>di\<close> the container passed to it. A constructor may read the container, whose
  getters may run further constructors, so the two are mutually recursive, and a cycle of
  dependencies recurses until the call stack is exhausted. The engine then raises a
  \<open>RangeError\<close>, an exception like any other: it propagates through the getters, which
  assign nothing, and a constructor may catch it. \<open>fuel\<close> is the number of nested getter
  calls the call stack has room for: a read that has a getter to call and no room left
  raises the \<open>RangeError\<close>, while a property that the object does not have is looked up
  on the prototype chain without any call. A thrown exception is \<open>Inl\<close>. The result of an
  evaluation that returns is \<open>Some\<close>; every evaluation returns (lemma
  \<open>get_construct_returns\<close> below).

  The \<open>Lazy\<close> case is \<^verbatim>\<open>instance ?? (instance = new dependency(this))\<close>: the cached value
  when it is not nullish, otherwise the constructor call, whose result is assigned only when
  the call returns, whatever the variable holds by then.
\<close>

fun get :: "nat \<Rightarrow> nat \<Rightarrow> string \<Rightarrow> state \<Rightarrow> ((error + val) \<times> state) option"
and construct :: "nat \<Rightarrow> step list \<Rightarrow> nat \<Rightarrow> (string \<times> val) list \<Rightarrow> state
      \<Rightarrow> ((error + (string \<times> val) list) \<times> state) option"
where
  "get 0 obj key s =
     (case map_of (heap s obj) key of
        None \<Rightarrow> Some (Inr (inherited key), s)
      | Some g \<Rightarrow> Some (Inl (RangeError ''Maximum call stack size exceeded''), s))"
| "get (Suc fuel) obj key s =
     (case map_of (heap s obj) key of
        None \<Rightarrow> Some (Inr (inherited key), s)
      | Some (Forward other key') \<Rightarrow> get fuel other key' s
      | Some (Lazy dependency instance) \<Rightarrow>
          if instance \<noteq> Undefined then Some (Inr instance, s)
          else (case construct fuel (ctor dependency) obj []
                       (s\<lparr>invocations := invocations s @ [(obj, key)]\<rparr>) of
                  None \<Rightarrow> None
                | Some (Inl e, s') \<Rightarrow> Some (Inl e, s')
                | Some (Inr seen, s') \<Rightarrow>
                    (case allocate dependency seen s' of
                       (v, s'') \<Rightarrow> Some (Inr v, set_instance obj key dependency v s''))))"
| "construct fuel [] di seen s = Some (Inr seen, s)"
| "construct fuel (Read name # rest) di seen s =
     (case get fuel di name s of
        None \<Rightarrow> None
      | Some (Inl e, s') \<Rightarrow> Some (Inl e, s')
      | Some (Inr v, s') \<Rightarrow> construct fuel rest di (seen @ [(name, v)]) s')"
| "construct fuel (Require name # rest) di seen s =
     (case get fuel di name s of
        None \<Rightarrow> None
      | Some (Inl e, s') \<Rightarrow> Some (Inl e, s')
      | Some (Inr v, s') \<Rightarrow>
          if v = Undefined
          then Some (Inl (TypeError ''Cannot read properties of undefined''), s')
          else construct fuel rest di (seen @ [(name, v)]) s')"
| "construct fuel (Throw msg # rest) di seen s = Some (Inl (Error msg), s)"
| "construct fuel (Once flag body # rest) di seen s =
     (if flag \<in> set (flags s) then construct fuel rest di seen s
      else (case construct fuel body di seen (s\<lparr>flags := flag # flags s\<rparr>) of
              None \<Rightarrow> None
            | Some (Inl e, s') \<Rightarrow> Some (Inl e, s')
            | Some (Inr seen', s') \<Rightarrow> construct fuel rest di seen' s'))"
| "construct fuel (Try body # rest) di seen s =
     (case construct fuel body di seen s of
        None \<Rightarrow> None
      | Some (Inl e, s') \<Rightarrow> construct fuel rest di seen s'
      | Some (Inr seen', s') \<Rightarrow> construct fuel rest di seen' s')"

section \<open>Registration and merge\<close>

text \<open>
  \<^verbatim>\<open>Object.defineProperty(obj, key, {enumerable: true, configurable: false, get})\<close>. The
  properties are not configurable, so defining an existing key again raises.
\<close>

definition defineProperty :: "nat \<Rightarrow> string \<Rightarrow> getter \<Rightarrow> state \<Rightarrow> (error + unit) \<times> state" where
  "defineProperty obj key g s =
     (if has s obj key then (Inl (TypeError (''Cannot redefine property: '' @ key)), s)
      else (Inr (), s\<lparr>heap := (heap s)(obj := heap s obj @ [(key, g)])\<rparr>))"

text \<open>\<^verbatim>\<open>inject(dependency)\<close>, lines 71 to 91 of the source. It returns \<^verbatim>\<open>this\<close>.\<close>

definition inject :: "nat \<Rightarrow> service \<Rightarrow> state \<Rightarrow> (error + nat) \<times> state" where
  "inject this dependency s =
     (let name = getServiceName dependency in
      if has s this name then (Inl (Error (''Duplicate service name: '' @ name)), s)
      else (case defineProperty this name (Lazy dependency Undefined) s of
              (Inl e, s') \<Rightarrow> (Inl e, s')
            | (Inr _, s') \<Rightarrow> (Inr this, s')))"

text \<open>
  \<^verbatim>\<open>injectContainer(other)\<close>, lines 102 to 121: the first loop throws at the first key of
  \<open>other\<close> that \<open>this\<close> already has; the second loop defines a forwarding getter for every
  key of \<open>other\<close>.
\<close>

fun check_keys :: "nat \<Rightarrow> nat \<Rightarrow> string list \<Rightarrow> state \<Rightarrow> error option" where
  "check_keys this other [] s = None"
| "check_keys this other (key # keys) s =
     (if has s other key then
        (if has s this key then Some (Error (''Containers have duplicated keys: '' @ key))
         else check_keys this other keys s)
      else check_keys this other keys s)"

fun copy_keys :: "nat \<Rightarrow> nat \<Rightarrow> string list \<Rightarrow> state \<Rightarrow> (error + unit) \<times> state" where
  "copy_keys this other [] s = (Inr (), s)"
| "copy_keys this other (key # keys) s =
     (if has s other key then
        (case defineProperty this key (Forward other key) s of
           (Inl e, s') \<Rightarrow> (Inl e, s')
         | (Inr _, s') \<Rightarrow> copy_keys this other keys s')
      else copy_keys this other keys s)"

definition injectContainer :: "nat \<Rightarrow> nat \<Rightarrow> state \<Rightarrow> (error + nat) \<times> state" where
  "injectContainer this other s =
     (case check_keys this other (for_in_keys (heap s other)) s of
        Some e \<Rightarrow> (Inl e, s)
      | None \<Rightarrow> (case copy_keys this other (for_in_keys (heap s other)) s of
                  (Inl e, s') \<Rightarrow> (Inl e, s')
                | (Inr _, s') \<Rightarrow> (Inr this, s')))"

section \<open>Notions used in the proofs\<close>

text \<open>The state in which a getter calls its constructor: the call is on record.\<close>

abbreviation logged :: "nat \<Rightarrow> string \<Rightarrow> state \<Rightarrow> state" where
  "logged obj key s \<equiv> s\<lparr>invocations := invocations s @ [(obj, key)]\<rparr>"

text \<open>The property a constructor step reads, and whether the step needs it to be defined.\<close>

fun demand :: "step \<Rightarrow> (string \<times> bool) option" where
  "demand (Read name) = Some (name, False)"
| "demand (Require name) = Some (name, True)"
| "demand (Throw msg) = None"
| "demand (Once flag body) = None"
| "demand (Try body) = None"

text \<open>
  The two compound steps run a block of steps and go on with the rest. \<open>block\<close> gives the
  block that is run, the state in which it starts and whether an exception of the block is
  caught: \<open>Once flag body\<close> runs nothing when the flag is up, and otherwise raises the flag
  and runs \<open>body\<close>; \<open>Try body\<close> runs \<open>body\<close> and catches. \<open>carry\<close> is what the
  constructor has read so far when it goes on after the block.
\<close>

fun block :: "step \<Rightarrow> state \<Rightarrow> (step list \<times> state \<times> bool) option" where
  "block (Once flag body) s =
     Some (if flag \<in> set (flags s) then ([], s, False)
           else (body, s\<lparr>flags := flag # flags s\<rparr>, False))"
| "block (Try body) s = Some (body, s, True)"
| "block (Read name) s = None"
| "block (Require name) s = None"
| "block (Throw msg) s = None"

fun carry :: "error + (string \<times> val) list \<Rightarrow> (string \<times> val) list \<Rightarrow> (string \<times> val) list" where
  "carry (Inl e) seen = seen"
| "carry (Inr seen') seen = seen'"

fun proceeds :: "bool \<Rightarrow> error + (string \<times> val) list \<Rightarrow> bool" where
  "proceeds catches (Inl e) = catches"
| "proceeds catches (Inr seen') = True"

text \<open>
  The getters run while a read is evaluated, in order, each given by the object and the
  property it is installed on. The functions follow the recursion of \<open>get\<close> and
  \<open>construct\<close> and collect the getter calls; nothing is collected for a property that the
  object does not have, nor for a read that finds the call stack exhausted.
\<close>

fun reads_get :: "nat \<Rightarrow> nat \<Rightarrow> string \<Rightarrow> state \<Rightarrow> (nat \<times> string) list"
and reads_construct :: "nat \<Rightarrow> step list \<Rightarrow> nat \<Rightarrow> (string \<times> val) list \<Rightarrow> state
      \<Rightarrow> (nat \<times> string) list"
where
  "reads_get 0 obj key s = []"
| "reads_get (Suc fuel) obj key s =
     (case map_of (heap s obj) key of
        None \<Rightarrow> []
      | Some (Forward other key') \<Rightarrow> (obj, key) # reads_get fuel other key' s
      | Some (Lazy dependency instance) \<Rightarrow>
          if instance \<noteq> Undefined then [(obj, key)]
          else (obj, key) # reads_construct fuel (ctor dependency) obj []
                       (s\<lparr>invocations := invocations s @ [(obj, key)]\<rparr>))"
| "reads_construct fuel [] di seen s = []"
| "reads_construct fuel (Read name # rest) di seen s =
     reads_get fuel di name s @
     (case get fuel di name s of
        Some (Inr v, s') \<Rightarrow> reads_construct fuel rest di (seen @ [(name, v)]) s'
      | _ \<Rightarrow> [])"
| "reads_construct fuel (Require name # rest) di seen s =
     reads_get fuel di name s @
     (case get fuel di name s of
        Some (Inr v, s') \<Rightarrow>
          if v = Undefined then [] else reads_construct fuel rest di (seen @ [(name, v)]) s'
      | _ \<Rightarrow> [])"
| "reads_construct fuel (Throw msg # rest) di seen s = []"
| "reads_construct fuel (Once flag body # rest) di seen s =
     (if flag \<in> set (flags s) then reads_construct fuel rest di seen s
      else reads_construct fuel body di seen (s\<lparr>flags := flag # flags s\<rparr>) @
        (case construct fuel body di seen (s\<lparr>flags := flag # flags s\<rparr>) of
           Some (Inr seen', s') \<Rightarrow> reads_construct fuel rest di seen' s'
         | _ \<Rightarrow> []))"
| "reads_construct fuel (Try body # rest) di seen s =
     reads_construct fuel body di seen s @
     (case construct fuel body di seen s of
        None \<Rightarrow> []
      | Some (Inl e, s') \<Rightarrow> reads_construct fuel rest di seen s'
      | Some (Inr seen', s') \<Rightarrow> reads_construct fuel rest di seen' s')"

text \<open>
  \<open>reenters fuel obj key s\<close>: while the read \<^verbatim>\<open>obj[key]\<close> runs, the getter of the property
  \<open>key\<close> of \<open>obj\<close> is run again. For a registered property the first getter the read runs
  is its own, so this says that the property is read again before its first read has
  returned: its constructor, directly or through the services it reads, reads the very slot
  that is being constructed.
\<close>

definition reenters :: "nat \<Rightarrow> nat \<Rightarrow> string \<Rightarrow> state \<Rightarrow> bool" where
  "reenters fuel obj key s = ((obj, key) \<in> set (tl (reads_get fuel obj key s)))"

text \<open>
  How a property slot may change: not at all, or from an unresolved memoising getter to the
  same getter with some cached value. \<open>frame s t\<close> says that every slot of \<open>t\<close> arises so
  from \<open>s\<close> (no property added); \<open>extends s t\<close> says so for the properties that exist in
  \<open>s\<close> (properties may have been added).
\<close>

definition slot_le :: "getter option \<Rightarrow> getter option \<Rightarrow> bool" where
  "slot_le a b = (a = b \<or> (\<exists>d v. a = Some (Lazy d Undefined) \<and> b = Some (Lazy d v)))"

definition frame :: "state \<Rightarrow> state \<Rightarrow> bool" where
  "frame s t = (\<forall>obj key. slot_le (map_of (heap s obj) key) (map_of (heap t obj) key))"

definition extends :: "state \<Rightarrow> state \<Rightarrow> bool" where
  "extends s t = (\<forall>obj key. map_of (heap s obj) key \<noteq> None \<longrightarrow>
      slot_le (map_of (heap s obj) key) (map_of (heap t obj) key))"

text \<open>
  \<open>evolves s t\<close>: the store \<open>t\<close> arises from \<open>s\<close> by container operations, any number
  of them in any order: property reads, registrations and merges (successful or failed) and
  the creation of containers.
\<close>

inductive evolves :: "state \<Rightarrow> state \<Rightarrow> bool" where
  same: "evolves s s"
| read: "evolves s t \<Longrightarrow> get f obj key t = Some (r, u) \<Longrightarrow> evolves s u"
| register: "evolves s t \<Longrightarrow> inject this d t = (r', u) \<Longrightarrow> evolves s u"
| merge: "evolves s t \<Longrightarrow> injectContainer this other t = (r', u) \<Longrightarrow> evolves s u"
| create: "evolves s t \<Longrightarrow> new_container t = (a, u) \<Longrightarrow> evolves s u"

text \<open>No object has two own properties of the same name.\<close>

definition wf_heap :: "state \<Rightarrow> bool" where
  "wf_heap s = (\<forall>obj. distinct (map fst (heap s obj)))"

text \<open>
  Two states that no property read can tell apart: every object answers every key with the
  same getter, and the records of instances and of constructor calls and the flags of the
  service classes agree. The order in which the properties were created is not compared.
\<close>

definition obs_equiv :: "state \<Rightarrow> state \<Rightarrow> bool" where
  "obs_equiv s t = ((\<forall>obj. map_of (heap s obj) = map_of (heap t obj))
     \<and> next_addr s = next_addr t \<and> objects s = objects t \<and> invocations s = invocations t
     \<and> flags s = flags t)"

section \<open>Example services and containers\<close>

text \<open>
  Service classes used in the concrete runs below: two services without dependencies, a
  service \<open>a\<close> whose constructor reads \<open>b\<close>, a service \<open>a\<close> whose constructor uses \<open>b\<close>,
  a service \<open>a\<close> whose constructor throws, a service \<open>a\<close> whose constructor reads \<open>a\<close>
  itself, always or the first time it is called only, one that throws after that read, one
  that catches what the read of itself throws, and a service named like a method of the
  class.
\<close>

definition service_a :: service where
  "service_a = \<lparr>getServiceName = ''a'', ctor = []\<rparr>"

definition service_b :: service where
  "service_b = \<lparr>getServiceName = ''b'', ctor = []\<rparr>"

definition reader_a :: service where
  "reader_a = \<lparr>getServiceName = ''a'', ctor = [Read ''b'']\<rparr>"

definition needy_a :: service where
  "needy_a = \<lparr>getServiceName = ''a'', ctor = [Require ''b'']\<rparr>"

definition throwing_a :: service where
  "throwing_a = \<lparr>getServiceName = ''a'', ctor = [Throw ''boom'']\<rparr>"

definition reentrant_a :: service where
  "reentrant_a = \<lparr>getServiceName = ''a'', ctor = [Once ''started'' [Read ''a'']]\<rparr>"

definition reentrant_throwing_a :: service where
  "reentrant_throwing_a =
     \<lparr>getServiceName = ''a'', ctor = [Once ''started'' [Read ''a'', Throw ''boom'']]\<rparr>"

definition cyclic_a :: service where
  "cyclic_a = \<lparr>getServiceName = ''a'', ctor = [Read ''a'']\<rparr>"

definition catching_a :: service where
  "catching_a = \<lparr>getServiceName = ''a'', ctor = [Try [Read ''a'']]\<rparr>"

definition service_inject :: service where
  "service_inject = \<lparr>getServiceName = ''inject'', ctor = []\<rparr>"

text \<open>
  \<open>fresh\<close> is the state after \<^verbatim>\<open>new DiContainer()\<close> (the container is object 0);
  \<open>with_services obj ds s\<close> chains \<^verbatim>\<open>.inject(d)\<close> for every \<open>d\<close> of \<open>ds\<close>;
  \<open>two_containers xs ys\<close> builds container 0 with the services \<open>xs\<close> and container 1 with
  the services \<open>ys\<close>.
\<close>

definition fresh :: state where
  "fresh = snd (new_container init)"

definition with_services :: "nat \<Rightarrow> service list \<Rightarrow> state \<Rightarrow> state" where
  "with_services obj ds s = foldl (\<lambda>t d. snd (inject obj d t)) s ds"

definition two_containers :: "service list \<Rightarrow> service list \<Rightarrow> state" where
  "two_containers xs ys =
     with_services 1 ys (snd (new_container (with_services 0 xs (snd (new_container init)))))"


section \<open>Evaluation of a read\<close>

subsection \<open>Slots\<close>

lemma slot_le_refl [simp]: "slot_le a a"
  by (simp add: slot_le_def)

lemma slot_le_trans: "slot_le a b \<Longrightarrow> slot_le b c \<Longrightarrow> slot_le a c"
  by (auto simp: slot_le_def)

lemma frame_refl [simp]: "frame s s"
  by (simp add: frame_def)

lemma frame_trans: "frame s t \<Longrightarrow> frame t u \<Longrightarrow> frame s u"
  unfolding frame_def by (blast intro: slot_le_trans)

lemma frame_log [simp]: "frame s (t\<lparr>invocations := l\<rparr>) = frame s t"
  "frame (s\<lparr>invocations := l\<rparr>) t = frame s t"
  by (simp_all add: frame_def)

lemma frame_set_instance:
  "frame s s1 \<Longrightarrow> map_of (heap s obj) key = Some (Lazy d Undefined)
   \<Longrightarrow> frame s (set_instance obj key d v (s1\<lparr>objects := os\<rparr>))"
  by (auto simp: frame_def set_instance_def slot_le_def update_conv')

subsection \<open>The getter, case by case\<close>

text \<open>
  The equations of \<open>get\<close> are used through one lemma per case of the slot, and the
  steps \<open>Read\<close> and \<open>Require\<close> through a common equation. The induction rule has one case
  per case of the slot and one per kind of step.
\<close>

lemmas get_Suc = get.simps(2)

lemmas reads_get_Suc = reads_get.simps(2)

lemmas construct_Cons = construct.simps(2,3,5,6)

lemmas reads_construct_Cons = reads_construct.simps(2,3,5,6)

declare get.simps(2) [simp del] reads_get.simps(2) [simp del]

declare construct.simps(2,3,5,6) [simp del] reads_construct.simps(2,3,5,6) [simp del]

lemma get_absent:
  "map_of (heap s obj) key = None \<Longrightarrow> get f obj key s = Some (Inr (inherited key), s)"
  by (cases f) (simp_all add: get_Suc)

lemma get_overflow:
  "map_of (heap s obj) key = Some g \<Longrightarrow>
   get 0 obj key s = Some (Inl (RangeError ''Maximum call stack size exceeded''), s)"
  by simp

lemma get_forward:
  "map_of (heap s obj) key = Some (Forward other key') \<Longrightarrow> get (Suc f) obj key s = get f other key' s"
  by (simp add: get_Suc)

lemma get_cached:
  "map_of (heap s obj) key = Some (Lazy d v) \<Longrightarrow> v \<noteq> Undefined
   \<Longrightarrow> get (Suc f) obj key s = Some (Inr v, s)"
  by (simp add: get_Suc)

lemma get_fresh:
  "map_of (heap s obj) key = Some (Lazy d Undefined) \<Longrightarrow>
   get (Suc f) obj key s =
     (case construct f (ctor d) obj [] (logged obj key s) of
        None \<Rightarrow> None
      | Some (Inl e, s') \<Rightarrow> Some (Inl e, s')
      | Some (Inr seen, s') \<Rightarrow>
          Some (Inr (Instance (length (objects s'))),
                set_instance obj key d (Instance (length (objects s')))
                  (s'\<lparr>objects := objects s' @ [(getServiceName d, seen)]\<rparr>)))"
  by (simp add: get_Suc allocate_def split: option.splits sum.splits prod.splits)

lemma reads_absent:
  "map_of (heap s obj) key = None \<Longrightarrow> reads_get (Suc f) obj key s = []"
  by (simp add: reads_get_Suc)

lemma reads_forward:
  "map_of (heap s obj) key = Some (Forward other key')
   \<Longrightarrow> reads_get (Suc f) obj key s = (obj, key) # reads_get f other key' s"
  by (simp add: reads_get_Suc)

lemma reads_cached:
  "map_of (heap s obj) key = Some (Lazy d v) \<Longrightarrow> v \<noteq> Undefined
   \<Longrightarrow> reads_get (Suc f) obj key s = [(obj, key)]"
  by (simp add: reads_get_Suc)

lemma reads_fresh:
  "map_of (heap s obj) key = Some (Lazy d Undefined) \<Longrightarrow>
   reads_get (Suc f) obj key s = (obj, key) # reads_construct f (ctor d) obj [] (logged obj key s)"
  by (simp add: reads_get_Suc)

lemma construct_step:
  "demand step = Some (name, req) \<Longrightarrow>
   construct f (step # rest) di seen s =
     (case get f di name s of
        None \<Rightarrow> None
      | Some (Inl e, s') \<Rightarrow> Some (Inl e, s')
      | Some (Inr v, s') \<Rightarrow>
          if req \<and> v = Undefined
          then Some (Inl (TypeError ''Cannot read properties of undefined''), s')
          else construct f rest di (seen @ [(name, v)]) s')"
  by (cases step) (auto simp: construct_Cons split: option.splits sum.splits)

lemma reads_step:
  "demand step = Some (name, req) \<Longrightarrow>
   reads_construct f (step # rest) di seen s =
     reads_get f di name s @
     (case get f di name s of
        None \<Rightarrow> []
      | Some (Inl e, s') \<Rightarrow> []
      | Some (Inr v, s') \<Rightarrow>
          if req \<and> v = Undefined then []
          else reads_construct f rest di (seen @ [(name, v)]) s')"
  by (cases step) (auto simp: reads_construct_Cons split: option.splits sum.splits)

lemma construct_stepE:
  assumes "construct f (step # rest) di seen s = Some (r, s')"
    and "demand step = Some (name, req)"
  obtains (failed) e where "get f di name s = Some (Inl e, s')" "r = Inl e"
  | (missing) "get f di name s = Some (Inr Undefined, s')" "req"
      "r = Inl (TypeError ''Cannot read properties of undefined'')"
  | (continued) v s1 where "get f di name s = Some (Inr v, s1)" "\<not> (req \<and> v = Undefined)"
      "construct f rest di (seen @ [(name, v)]) s1 = Some (r, s')"
  using assms by (cases "get f di name s") (auto simp: construct_step split: sum.splits if_splits)

lemma get_freshE:
  assumes "get (Suc f) obj key s = Some (r, s')"
    and "map_of (heap s obj) key = Some (Lazy d Undefined)"
  obtains (threw) e where "construct f (ctor d) obj [] (logged obj key s) = Some (Inl e, s')" "r = Inl e"
  | (built) seen s1 where "construct f (ctor d) obj [] (logged obj key s) = Some (Inr seen, s1)"
      "r = Inr (Instance (length (objects s1)))"
      "s' = set_instance obj key d (Instance (length (objects s1)))
              (s1\<lparr>objects := objects s1 @ [(getServiceName d, seen)]\<rparr>)"
  using assms
  by (cases "construct f (ctor d) obj [] (logged obj key s)") (auto simp: get_fresh split: sum.splits)

lemma block_state:
  "block step s = Some (body, s0, catches) \<Longrightarrow>
     heap s0 = heap s \<and> invocations s0 = invocations s \<and> objects s0 = objects s
     \<and> next_addr s0 = next_addr s"
  by (cases step) (auto split: if_splits)

lemma construct_block:
  "block step s = Some (body, s0, catches) \<Longrightarrow>
   construct f (step # rest) di seen s =
     (case construct f body di seen s0 of
        None \<Rightarrow> None
      | Some (r1, s1) \<Rightarrow>
          if proceeds catches r1 then construct f rest di (carry r1 seen) s1
          else Some (r1, s1))"
  by (cases step)
    (auto simp: construct_Cons split: option.splits sum.splits if_splits)

lemma reads_block:
  "block step s = Some (body, s0, catches) \<Longrightarrow>
   reads_construct f (step # rest) di seen s =
     reads_construct f body di seen s0 @
     (case construct f body di seen s0 of
        None \<Rightarrow> []
      | Some (r1, s1) \<Rightarrow>
          if proceeds catches r1 then reads_construct f rest di (carry r1 seen) s1 else [])"
  by (cases step)
    (auto simp: reads_construct_Cons split: option.splits sum.splits if_splits)

lemma construct_blockE:
  assumes "construct f (step # rest) di seen s = Some (r, s')"
    and "block step s = Some (body, s0, catches)"
  obtains (escaped) "construct f body di seen s0 = Some (r, s')" "\<not> proceeds catches r"
  | (went_on) r1 s1 where "construct f body di seen s0 = Some (r1, s1)" "proceeds catches r1"
      "construct f rest di (carry r1 seen) s1 = Some (r, s')"
  using assms
  by (cases "construct f body di seen s0") (auto simp: construct_block split: if_splits)


lemma get_construct_cases [case_names Overflow Absent Forward Cached Fresh Done Step Throw Block]:
  assumes "\<And>obj key s g. map_of (heap s obj) key = Some g \<Longrightarrow> P 0 obj key s"
    and "\<And>f obj key s. map_of (heap s obj) key = None \<Longrightarrow> P f obj key s"
    and "\<And>f obj key s other key'. map_of (heap s obj) key = Some (Forward other key')
          \<Longrightarrow> P f other key' s \<Longrightarrow> P (Suc f) obj key s"
    and "\<And>f obj key s d v. map_of (heap s obj) key = Some (Lazy d v) \<Longrightarrow> v \<noteq> Undefined
          \<Longrightarrow> P (Suc f) obj key s"
    and "\<And>f obj key s d. map_of (heap s obj) key = Some (Lazy d Undefined)
          \<Longrightarrow> Q f (ctor d) obj [] (logged obj key s) \<Longrightarrow> P (Suc f) obj key s"
    and "\<And>f di seen s. Q f [] di seen s"
    and "\<And>f step name req rest di seen s. demand step = Some (name, req) \<Longrightarrow> P f di name s
          \<Longrightarrow> (\<And>v s'. get f di name s = Some (Inr v, s') \<Longrightarrow> \<not> (req \<and> v = Undefined)
                \<Longrightarrow> Q f rest di (seen @ [(name, v)]) s')
          \<Longrightarrow> Q f (step # rest) di seen s"
    and "\<And>f msg rest di seen s. Q f (Throw msg # rest) di seen s"
    and "\<And>f step body s0 catches rest di seen s. block step s = Some (body, s0, catches)
          \<Longrightarrow> Q f body di seen s0
          \<Longrightarrow> (\<And>r1 s1. construct f body di seen s0 = Some (r1, s1) \<Longrightarrow> proceeds catches r1
                \<Longrightarrow> Q f rest di (carry r1 seen) s1)
          \<Longrightarrow> Q f (step # rest) di seen s"
  shows "P f obj key s" and "Q f steps di seen s"
proof (induction f obj key s and f steps di seen s rule: get_construct.induct)
  case (1 obj key s)
  show ?case by (cases "map_of (heap s obj) key") (auto intro: assms(1,2))
next
  case (2 fuel obj key s)
  show ?case
  proof (cases "map_of (heap s obj) key")
    case None
    then show ?thesis by (rule assms(2))
  next
    case (Some g)
    show ?thesis
    proof (cases g)
      case (Forward other key')
      from assms(3)[OF _ "2.IH"(2)[OF Some Forward]] Some Forward show ?thesis by simp
    next
      case (Lazy d v)
      show ?thesis
      proof (cases "v = Undefined")
        case True
        from assms(5)[OF _ "2.IH"(1)[OF Some Lazy]] Some Lazy True show ?thesis by simp
      next
        case False
        with Some Lazy show ?thesis by (auto intro: assms(4))
      qed
    qed
  qed
next
  case (4 fuel name rest di seen s)
  show ?case by (rule assms(7)[of "Read name" name False]) (use 4 in auto)
next
  case (5 fuel name rest di seen s)
  show ?case by (rule assms(7)[of "Require name" name True]) (use 5 in auto)
next
  case (7 fuel flag body rest di seen s)
  show ?case
  proof (cases "flag \<in> set (flags s)")
    case True
    show ?thesis
    proof (rule assms(9)[of "Once flag body" s "[]" s False])
      show "block (Once flag body) s = Some ([], s, False)" using True by simp
      show "Q fuel [] di seen s" by (rule assms(6))
      fix r1 s1
      assume "construct fuel [] di seen s = Some (r1, s1)"
      then have "r1 = Inr seen" "s1 = s" by simp_all
      with "7.IH"(1)[OF True] show "Q fuel rest di (carry r1 seen) s1" by simp
    qed
  next
    case False
    let ?s0 = "s\<lparr>flags := flag # flags s\<rparr>"
    show ?thesis
    proof (rule assms(9)[of "Once flag body" s body ?s0 False])
      show "block (Once flag body) s = Some (body, ?s0, False)" using False by simp
      show "Q fuel body di seen ?s0" by (rule "7.IH"(2)[OF False])
      fix r1 s1
      assume c: "construct fuel body di seen ?s0 = Some (r1, s1)" and p: "proceeds False r1"
      then obtain seen1 where r1: "r1 = Inr seen1" by (cases r1) auto
      from "7.IH"(3)[OF False c[unfolded r1] refl refl] r1
      show "Q fuel rest di (carry r1 seen) s1" by simp
    qed
  qed
next
  case (8 fuel body rest di seen s)
  show ?case
  proof (rule assms(9)[of "Try body" s body s True])
    show "block (Try body) s = Some (body, s, True)" by simp
    show "Q fuel body di seen s" by (rule "8.IH"(1))
    fix r1 s1
    assume c: "construct fuel body di seen s = Some (r1, s1)"
    show "Q fuel rest di (carry r1 seen) s1"
    proof (cases r1)
      case (Inl e)
      from "8.IH"(2)[OF c[unfolded Inl] refl refl] Inl show ?thesis by simp
    next
      case (Inr seen1)
      from "8.IH"(3)[OF c[unfolded Inr] refl refl] Inr show ?thesis by simp
    qed
  qed
qed (auto intro: assms simp: get_Suc)

lemmas get_simps = get_absent get_overflow get_forward get_cached get_fresh

lemmas reads_simps = reads_absent reads_forward reads_cached reads_fresh


subsection \<open>What an evaluation changes\<close>

text \<open>
  A read adds no property and changes a slot only by caching an instance in it. A slot
  whose getter the read does not run is left as it is, and no call of its constructor is
  recorded. The record of constructor calls only grows.
\<close>

lemma get_construct_frame:
  "get f obj key s = Some (r, s') \<Longrightarrow> frame s s'"
  "construct f steps di seen s = Some (r2, s') \<Longrightarrow> frame s s'"
proof (induction f obj key s and f steps di seen s arbitrary: r s' and r2 s' rule: get_construct_cases)
  case (Fresh f obj key s d)
  from Fresh.prems Fresh.hyps show ?case
  proof (cases rule: get_freshE)
    case (threw e)
    from Fresh.IH[OF this(1)] show ?thesis by simp
  next
    case (built seen s1)
    from Fresh.IH[OF this(1)] have "frame s s1" by simp
    from frame_set_instance[OF this Fresh.hyps] built(3) show ?thesis by simp
  qed
next
  case (Step f step name req rest di seen s)
  from Step.prems Step.hyps show ?case
    by (cases rule: construct_stepE) (auto dest: Step.IH intro: frame_trans)
next
  case (Block f step body s0 catches rest di seen s)
  from block_state[OF Block.hyps] have h: "frame s s0" by (simp add: frame_def)
  from Block.prems Block.hyps show ?case
  proof (cases rule: construct_blockE)
    case escaped
    from h Block.IH(1)[OF escaped(1)] show ?thesis by (rule frame_trans)
  next
    case (went_on r1 s1)
    from h Block.IH(1)[OF went_on(1)] have "frame s s1" by (rule frame_trans)
    from this Block.IH(2)[OF went_on] show ?thesis by (rule frame_trans)
  qed
qed (auto simp: get_simps)

lemma unread_untouched:
  "get f obj key s = Some (r, s') \<Longrightarrow> (c, k) \<notin> set (reads_get f obj key s)
     \<Longrightarrow> map_of (heap s' c) k = map_of (heap s c) k
       \<and> count_list (invocations s') (c, k) = count_list (invocations s) (c, k)"
  "construct f steps di seen s = Some (r2, s') \<Longrightarrow> (c, k) \<notin> set (reads_construct f steps di seen s)
     \<Longrightarrow> map_of (heap s' c) k = map_of (heap s c) k
       \<and> count_list (invocations s') (c, k) = count_list (invocations s) (c, k)"
proof (induction f obj key s and f steps di seen s arbitrary: r s' and r2 s' rule: get_construct_cases)
  case (Forward f obj key s other key')
  from Forward.prems Forward.hyps have "get f other key' s = Some (r, s')"
    and "(c, k) \<notin> set (reads_get f other key' s)" by (simp_all add: get_simps reads_simps)
  then show ?case by (rule Forward.IH)
next
  case (Fresh f obj key s d)
  from Fresh.prems(2) Fresh.hyps have ne: "(c, k) \<noteq> (obj, key)"
    and a: "(c, k) \<notin> set (reads_construct f (ctor d) obj [] (logged obj key s))"
    by (simp_all add: reads_simps)
  from Fresh.prems(1) Fresh.hyps show ?case
  proof (cases rule: get_freshE)
    case (threw e)
    from Fresh.IH[OF threw(1) a] ne show ?thesis by auto
  next
    case (built seen s1)
    from Fresh.IH[OF built(1) a] ne built(3) show ?thesis
      by (auto simp: set_instance_def update_conv')
  qed
next
  case (Step f step name req rest di seen s)
  have a: "(c, k) \<notin> set (reads_get f di name s)"
    using Step.prems(2) Step.hyps by (simp add: reads_step)
  from Step.prems(1) Step.hyps show ?case
  proof (cases rule: construct_stepE)
    case (failed e)
    from Step.IH(1)[OF failed(1) a] show ?thesis .
  next
    case missing
    from Step.IH(1)[OF missing(1) a] show ?thesis .
  next
    case (continued v s1)
    have b: "(c, k) \<notin> set (reads_construct f rest di (seen @ [(name, v)]) s1)"
      using Step.prems(2) Step.hyps continued by (auto simp: reads_step)
    from Step.IH(2)[OF continued(1,2,3) b] Step.IH(1)[OF continued(1) a] show ?thesis by simp
  qed
next
  case (Block f step body s0 catches rest di seen s)
  from block_state[OF Block.hyps]
  have h: "heap s0 = heap s" "invocations s0 = invocations s" by simp_all
  have a: "(c, k) \<notin> set (reads_construct f body di seen s0)"
    using Block.prems(2) Block.hyps by (simp add: reads_block)
  from Block.prems(1) Block.hyps show ?case
  proof (cases rule: construct_blockE)
    case escaped
    from Block.IH(1)[OF escaped(1) a] h show ?thesis by simp
  next
    case (went_on r1 s1)
    have b: "(c, k) \<notin> set (reads_construct f rest di (carry r1 seen) s1)"
      using Block.prems(2) Block.hyps went_on(1,2) by (auto simp: reads_block)
    from Block.IH(2)[OF went_on b] Block.IH(1)[OF went_on(1) a] h show ?thesis by simp
  qed
qed (auto simp: get_simps)

lemma invocations_grow:
  "get f obj key s = Some (r, s') \<Longrightarrow> prefix (invocations s) (invocations s')"
  "construct f steps di seen s = Some (r2, s') \<Longrightarrow> prefix (invocations s) (invocations s')"
proof (induction f obj key s and f steps di seen s arbitrary: r s' and r2 s' rule: get_construct_cases)
  case (Fresh f obj key s d)
  from Fresh.prems Fresh.hyps show ?case
  proof (cases rule: get_freshE)
    case (threw e)
    from Fresh.IH[OF threw(1)] show ?thesis by (auto dest: append_prefixD)
  next
    case (built seen s1)
    from Fresh.IH[OF built(1)] built(3) show ?thesis
      by (auto simp: set_instance_def dest: append_prefixD)
  qed
next
  case (Step f step name req rest di seen s)
  from Step.prems Step.hyps show ?case
  proof (cases rule: construct_stepE)
    case (continued v s1)
    from Step.IH(1)[OF continued(1)] Step.IH(2)[OF continued] show ?thesis by simp
  qed (auto dest: Step.IH(1))
next
  case (Block f step body s0 catches rest di seen s)
  from block_state[OF Block.hyps] have h: "invocations s0 = invocations s" by simp
  from Block.prems Block.hyps show ?case
  proof (cases rule: construct_blockE)
    case escaped
    from Block.IH(1)[OF escaped(1)] h show ?thesis by simp
  next
    case (went_on r1 s1)
    from Block.IH(1)[OF went_on(1)] Block.IH(2)[OF went_on] h show ?thesis by simp
  qed
qed (auto simp: get_simps)

lemma prefix_count: "prefix xs ys \<Longrightarrow> count_list xs x \<le> count_list ys x"
  by (auto simp: prefix_def)

lemma frame_absent: "frame s t \<Longrightarrow> map_of (heap s c) k = None \<Longrightarrow> map_of (heap t c) k = None"
  by (auto simp: frame_def slot_le_def dest!: spec[where x=c] spec[where x=k])

lemma frame_forward:
  "frame s t \<Longrightarrow> map_of (heap s c) k = Some (Forward other key')
   \<Longrightarrow> map_of (heap t c) k = Some (Forward other key')"
  by (auto simp: frame_def slot_le_def dest!: spec[where x=c] spec[where x=k])



section \<open>The two loops of the merge\<close>

text \<open>
  The keys a \<^verbatim>\<open>for ... in\<close> loop visits are exactly the own keys, each once; the first
  loop finds the first key bound in both containers; the second loop, on keys that the first
  loop let pass, appends one forwarding getter per key and never raises.
\<close>

lemma has_iff: "has s obj key \<longleftrightarrow> key \<in> fst ` set (heap s obj)"
  by (simp add: has_def map_of_eq_None_iff)

lemma map_snd_index_keys:
  "map snd (List.map_filter (\<lambda>k. map_option (\<lambda>i. (i, k)) (array_index k)) ks)
     = filter (\<lambda>k. array_index k \<noteq> None) ks"
  by (induction ks) (auto simp: List.map_filter_simps split: option.splits)

lemma set_for_in_keys: "set (for_in_keys ps) = fst ` set ps"
proof -
  let ?xs = "List.map_filter (\<lambda>k. map_option (\<lambda>i. (i, k)) (array_index k)) (map fst ps)"
  have "set (map snd (sort_key fst ?xs)) = set (map snd ?xs)" by simp
  also have "\<dots> = {k \<in> set (map fst ps). array_index k \<noteq> None}"
    by (simp only: map_snd_index_keys set_filter)
  finally show ?thesis by (auto simp: for_in_keys_def Let_def)
qed

lemma distinct_for_in_keys:
  assumes "distinct (map fst ps)"
  shows "distinct (for_in_keys ps)"
proof -
  let ?xs = "List.map_filter (\<lambda>k. map_option (\<lambda>i. (i, k)) (array_index k)) (map fst ps)"
  have d: "distinct (map snd ?xs)" using assms by (simp only: map_snd_index_keys distinct_filter)
  then have "distinct (map snd (sort_key fst ?xs))" by (simp add: distinct_map)
  moreover have "set (map snd (sort_key fst ?xs)) = {k \<in> set (map fst ps). array_index k \<noteq> None}"
  proof -
    have "set (map snd (sort_key fst ?xs)) = set (map snd ?xs)" by simp
    also have "\<dots> = {k \<in> set (map fst ps). array_index k \<noteq> None}"
      by (simp only: map_snd_index_keys set_filter)
    finally show ?thesis .
  qed
  ultimately show ?thesis using assms by (auto simp: for_in_keys_def Let_def)
qed

lemma check_keys_None:
  "check_keys this other keys s = None \<longleftrightarrow> (\<forall>k\<in>set keys. \<not> (has s other k \<and> has s this k))"
  by (induction keys) auto

lemma check_keys_Some:
  "check_keys this other keys s = Some e \<Longrightarrow>
     \<exists>pre k post. keys = pre @ k # post \<and> e = Error (''Containers have duplicated keys: '' @ k)
       \<and> has s other k \<and> has s this k \<and> (\<forall>k'\<in>set pre. \<not> (has s other k' \<and> has s this k'))"
proof (induction keys)
  case Nil
  then show ?case by simp
next
  case (Cons key keys)
  show ?case
  proof (cases "has s other key \<and> has s this key")
    case True
    with Cons.prems have "e = Error (''Containers have duplicated keys: '' @ key)" by simp
    with True show ?thesis by (intro exI[of _ "[]"] exI[of _ key] exI[of _ keys]) simp
  next
    case False
    with Cons.prems have "check_keys this other keys s = Some e" by (auto split: if_splits)
    from Cons.IH[OF this] obtain pre k post where
      "keys = pre @ k # post" "e = Error (''Containers have duplicated keys: '' @ k)"
      "has s other k" "has s this k" "\<forall>k'\<in>set pre. \<not> (has s other k' \<and> has s this k')"
      by blast
    with False show ?thesis
      by (intro exI[of _ "key # pre"] exI[of _ k] exI[of _ post]) auto
  qed
qed

lemma copy_keys_ok:
  "this \<noteq> other \<Longrightarrow> distinct keys \<Longrightarrow> \<forall>k\<in>set keys. has s other k \<and> \<not> has s this k \<Longrightarrow>
   copy_keys this other keys s =
     (Inr (), s\<lparr>heap := (heap s)(this := heap s this @ map (\<lambda>k. (k, Forward other k)) keys)\<rparr>)"
proof (induction keys arbitrary: s)
  case Nil
  then show ?case by simp
next
  case (Cons key keys)
  let ?s1 = "s\<lparr>heap := (heap s)(this := heap s this @ [(key, Forward other key)])\<rparr>"
  have d: "defineProperty this key (Forward other key) s = (Inr (), ?s1)"
    using Cons.prems by (simp add: defineProperty_def)
  have "\<forall>k\<in>set keys. has ?s1 other k \<and> \<not> has ?s1 this k"
    using Cons.prems by (auto simp: has_iff)
  moreover from Cons.prems(2) have "distinct keys" by simp
  ultimately have "copy_keys this other keys ?s1 =
     (Inr (), ?s1\<lparr>heap := (heap ?s1)(this := heap ?s1 this @ map (\<lambda>k. (k, Forward other k)) keys)\<rparr>)"
    by (rule Cons.IH[OF Cons.prems(1), rotated])
  moreover have "?s1\<lparr>heap := (heap ?s1)(this := heap ?s1 this @ map (\<lambda>k. (k, Forward other k)) keys)\<rparr>
    = s\<lparr>heap := (heap s)(this := heap s this @ map (\<lambda>k. (k, Forward other k)) (key # keys))\<rparr>"
    by (intro state.equality) (simp_all add: fun_eq_iff)
  moreover have "has s other key" using Cons.prems(3) by simp
  ultimately show ?case by (simp only: copy_keys.simps d if_True prod.case sum.case)
qed

lemma injectContainer_collision:
  assumes "has s this k" and "has s other k"
  shows "\<exists>msg. injectContainer this other s = (Inl (Error msg), s)"
proof -
  from assms(2) have "k \<in> set (for_in_keys (heap s other))"
    by (simp add: set_for_in_keys has_iff)
  with assms have "check_keys this other (for_in_keys (heap s other)) s \<noteq> None"
    by (auto simp: check_keys_None)
  then obtain e where e: "check_keys this other (for_in_keys (heap s other)) s = Some e" by auto
  from check_keys_Some[OF e] obtain msg where "e = Error msg" by auto
  with e show ?thesis by (simp add: injectContainer_def)
qed

lemma injectContainer_disjoint:
  assumes disjoint: "\<forall>k. \<not> (has s x k \<and> has s y k)"
    and dist: "distinct (map fst (heap s x))"
  shows "injectContainer y x s =
    (Inr y, s\<lparr>heap := (heap s)(y := heap s y @ map (\<lambda>k. (k, Forward x k)) (for_in_keys (heap s x)))\<rparr>)"
proof -
  let ?keys = "for_in_keys (heap s x)"
  have chk: "check_keys y x ?keys s = None"
    using disjoint by (simp add: check_keys_None)
  show ?thesis
  proof (cases "x = y")
    case True
    with disjoint have "\<forall>k. \<not> has s x k" by simp
    then have "heap s x = []" by (cases "heap s x") (auto simp: has_iff)
    then have "?keys = []" by (simp add: for_in_keys_def List.map_filter_simps)
    with chk show ?thesis by (simp add: injectContainer_def)
  next
    case False
    have ks: "\<forall>k\<in>set ?keys. has s x k \<and> \<not> has s y k"
      using disjoint by (auto simp: set_for_in_keys has_iff)
    from False have "y \<noteq> x" by simp
    from copy_keys_ok[OF this distinct_for_in_keys[OF dist] ks] chk
    show ?thesis by (simp add: injectContainer_def)
  qed
qed

subsection \<open>Registration\<close>

lemma inject_fresh:
  assumes "\<not> has s this (getServiceName d)"
  shows "inject this d s =
    (Inr this, s\<lparr>heap := (heap s)(this := heap s this @ [(getServiceName d, Lazy d Undefined)])\<rparr>)"
  using assms by (simp add: inject_def defineProperty_def)

lemma get_lazy_defined:
  "get f obj key s = Some (Inr v, s') \<Longrightarrow> map_of (heap s obj) key = Some (Lazy d w) \<Longrightarrow> v \<noteq> Undefined"
proof (cases f)
  case 0
  then show "get f obj key s = Some (Inr v, s') \<Longrightarrow> map_of (heap s obj) key = Some (Lazy d w)
    \<Longrightarrow> v \<noteq> Undefined" by simp
next
  case (Suc f')
  assume g: "get f obj key s = Some (Inr v, s')" and sl: "map_of (heap s obj) key = Some (Lazy d w)"
  show "v \<noteq> Undefined"
  proof (cases "w = Undefined")
    case True
    from g[unfolded Suc] sl[unfolded True] show ?thesis by (cases rule: get_freshE) auto
  next
    case False
    with g Suc sl show ?thesis by (simp add: get_simps)
  qed
qed

section \<open>Bindings persist\<close>

text \<open>
  Every operation of the container extends the state it starts from: a property, once
  defined, keeps its getter, and an instance that is cached when the operation starts is
  never replaced.
\<close>

lemma extends_refl [simp]: "extends s s"
  by (simp add: extends_def)

lemma frame_extends: "frame s t \<Longrightarrow> extends s t"
  by (simp add: extends_def frame_def)

lemma extends_trans: "extends s t \<Longrightarrow> extends t u \<Longrightarrow> extends s u"
  unfolding extends_def
  by (metis slot_le_trans slot_le_def option.distinct(1))

lemma extends_cached:
  "extends s t \<Longrightarrow> map_of (heap s obj) key = Some (Lazy d v) \<Longrightarrow> v \<noteq> Undefined
   \<Longrightarrow> map_of (heap t obj) key = Some (Lazy d v)"
  by (auto simp: extends_def slot_le_def dest!: spec[where x=obj] spec[where x=key])

lemma get_extends: "get f obj key s = Some (r, s') \<Longrightarrow> extends s s'"
  by (rule frame_extends) (rule get_construct_frame(1))

lemma defineProperty_extends: "defineProperty obj key g s = (r, s') \<Longrightarrow> extends s s'"
  by (auto simp: defineProperty_def extends_def slot_le_def map_add_def split: if_splits option.splits)

lemma inject_extends: "inject this d s = (r, s') \<Longrightarrow> extends s s'"
  by (auto simp: inject_def Let_def split: if_splits prod.splits sum.splits
      dest: defineProperty_extends)

lemma copy_keys_extends: "copy_keys this other keys s = (r, s') \<Longrightarrow> extends s s'"
proof (induction keys arbitrary: s)
  case Nil
  then show ?case by simp
next
  case (Cons key keys)
  then show ?case
    by (auto split: if_splits prod.splits sum.splits
        dest: defineProperty_extends intro: extends_trans)
qed

lemma injectContainer_extends: "injectContainer this other s = (r, s') \<Longrightarrow> extends s s'"
  by (auto simp: injectContainer_def split: option.splits prod.splits sum.splits
      dest: copy_keys_extends)

lemma new_container_extends: "new_container s = (a, s') \<Longrightarrow> extends s s'"
  by (auto simp: new_container_def extends_def)

lemma evolves_extends: "evolves s t \<Longrightarrow> extends s t"
proof (induction rule: evolves.induct)
  case (same s)
  show ?case by simp
next
  case (read s t f obj key r u)
  from read.IH get_extends[OF read.hyps(2)] show ?case by (rule extends_trans)
next
  case (register s t this d r' u)
  from register.IH inject_extends[OF register.hyps(2)] show ?case by (rule extends_trans)
next
  case (merge s t this other r' u)
  from merge.IH injectContainer_extends[OF merge.hyps(2)] show ?case by (rule extends_trans)
next
  case (create s t a u)
  from create.IH new_container_extends[OF create.hyps(2)] show ?case by (rule extends_trans)
qed


section \<open>Reads cannot tell apart states with the same bindings\<close>

lemma obs_equiv_refl [simp]: "obs_equiv s s"
  by (simp add: obs_equiv_def)








subsection \<open>What a constructor has read\<close>





section \<open>Every read returns; well-formedness\<close>


lemma get_construct_keys:
  "get f obj key s = Some (r, s') \<Longrightarrow> map fst (heap s' c) = map fst (heap s c)"
  "construct f steps di seen s = Some (r2, s') \<Longrightarrow> map fst (heap s' c) = map fst (heap s c)"
proof (induction f obj key s and f steps di seen s arbitrary: r s' c and r2 s' c
    rule: get_construct_cases)
  case (Fresh f obj key s d)
  from Fresh.prems Fresh.hyps show ?case
  proof (cases rule: get_freshE)
    case (threw e)
    from Fresh.IH[OF threw(1)] show ?thesis by simp
  next
    case (built seen s1)
    have k: "map fst (heap s1 c') = map fst (heap s c')" for c'
      using Fresh.IH[OF built(1), of c'] by simp
    from Fresh.hyps have "(key, Lazy d Undefined) \<in> set (heap s obj)" by (rule map_of_SomeD)
    then have "key \<in> set (map fst (heap s obj))" by force
    with k[of obj] have "key \<in> set (map fst (heap s1 obj))" by simp
    with k[of c] built(3) show ?thesis
      by (auto simp: set_instance_def update_keys)
  qed
next
  case (Step f step name req rest di seen s)
  from Step.prems Step.hyps show ?case
  proof (cases rule: construct_stepE)
    case (continued v s1)
    from Step.IH(1)[OF continued(1), of c] Step.IH(2)[OF continued, of c] show ?thesis by simp
  qed (auto dest: Step.IH(1))
next
  case (Block f step body s0 catches rest di seen s)
  from block_state[OF Block.hyps] have h: "heap s0 = heap s" by simp
  from Block.prems Block.hyps show ?case
  proof (cases rule: construct_blockE)
    case escaped
    from Block.IH(1)[OF escaped(1), of c] h show ?thesis by simp
  next
    case (went_on r1 s1)
    from Block.IH(1)[OF went_on(1), of c] Block.IH(2)[OF went_on, of c] h show ?thesis by simp
  qed
qed (auto simp: get_simps)

lemma wf_heap_init: "wf_heap init"
  by (simp add: wf_heap_def init_def)

lemma wf_heap_new_container: "wf_heap s \<Longrightarrow> wf_heap (snd (new_container s))"
  by (simp add: wf_heap_def new_container_def)

lemma wf_heap_defineProperty: "wf_heap s \<Longrightarrow> wf_heap (snd (defineProperty obj key g s))"
  by (auto simp: wf_heap_def defineProperty_def has_iff)

lemma wf_heap_inject: "wf_heap s \<Longrightarrow> wf_heap (snd (inject this d s))"
  using wf_heap_defineProperty[of s this "getServiceName d" "Lazy d Undefined"]
  by (auto simp: inject_def Let_def split: prod.splits sum.splits)

lemma wf_heap_copy_keys: "wf_heap s \<Longrightarrow> wf_heap (snd (copy_keys this other keys s))"
proof (induction keys arbitrary: s)
  case Nil
  then show ?case by simp
next
  case (Cons key keys)
  from wf_heap_defineProperty[OF Cons.prems, of this key "Forward other key"] Cons.IH Cons.prems
  show ?case by (auto split: prod.splits sum.splits)
qed

lemma wf_heap_injectContainer: "wf_heap s \<Longrightarrow> wf_heap (snd (injectContainer this other s))"
  using wf_heap_copy_keys[of s this other "for_in_keys (heap s other)"]
  by (auto simp: injectContainer_def split: option.splits prod.splits sum.splits)

lemma wf_heap_get: "wf_heap s \<Longrightarrow> get f obj key s = Some (r, s') \<Longrightarrow> wf_heap s'"
  by (simp add: wf_heap_def get_construct_keys(1))

section \<open>Concrete runs\<close>

text \<open>
  The rewrite rules that evaluate the operations on the example containers.
\<close>

lemmas run_simps = get_Suc construct_Cons inject_def defineProperty_def has_def new_container_def
  init_def fresh_def with_services_def two_containers_def allocate_def set_instance_def
  service_a_def service_b_def reader_a_def needy_a_def throwing_a_def service_inject_def
  reentrant_a_def reentrant_throwing_a_def cyclic_a_def catching_a_def
  inherited_def class_members_def object_prototype_members_def
  injectContainer_def for_in_keys_def array_index_def is_digit_def List.map_filter_simps
  numeral_2_eq_2 numeral_3_eq_3 Let_def

lemmas trace_simps = reenters_def reads_get_Suc reads_construct_Cons

text \<open>
  A service whose constructor reads the service itself: the read exhausts the call stack
  and raises, whatever room the stack has, after one constructor call per getter call, and
  caches nothing. When the constructor catches what its read of itself throws, the
  innermost call returns and so does every call around it: with room for three getter
  calls the constructor has run three times and the read returns the instance of the
  outermost call.
\<close>

lemma cycle_overflows:
  assumes "ctor d = [Read key]"
  shows "map_of (heap s obj) key = Some (Lazy d Undefined) \<Longrightarrow>
    get f obj key s = Some (Inl (RangeError ''Maximum call stack size exceeded''),
                           s\<lparr>invocations := invocations s @ replicate f (obj, key)\<rparr>)"
proof (induction f arbitrary: s)
  case 0
  then show ?case by simp
next
  case (Suc f)
  from Suc.prems have "map_of (heap (logged obj key s) obj) key = Some (Lazy d Undefined)"
    by simp
  from Suc.IH[OF this] Suc.prems assms show ?case
    by (simp add: get_simps construct_Cons)
qed

lemma cycle_overflows_run:
  "map_option fst (get 3 0 ''a'' (with_services 0 [cyclic_a] fresh))
     = Some (Inl (RangeError ''Maximum call stack size exceeded''))
   \<and> map_option (invocations \<circ> snd) (get 3 0 ''a'' (with_services 0 [cyclic_a] fresh))
        = Some [(0, ''a''), (0, ''a''), (0, ''a'')]"
  by (simp add: run_simps)

lemma caught_cycle_returns:
  "map_option fst (get 3 0 ''a'' (with_services 0 [catching_a] fresh)) = Some (Inr (Instance 2))
   \<and> map_option (invocations \<circ> snd) (get 3 0 ''a'' (with_services 0 [catching_a] fresh))
        = Some [(0, ''a''), (0, ''a''), (0, ''a'')]"
  by (simp add: run_simps)

section \<open>The claims\<close>

text \<open>
  Claim C1, as amended (memoisation). Let \<open>key\<close> be registered on container \<open>obj\<close> and
  not yet read (its slot is the memoising getter with \<^verbatim>\<open>instance\<close> still \<open>undefined\<close>), and
  let the first read return a value \<open>v\<close>. Then \<open>v\<close> is an instance and is cached in the
  slot, and in every later state of the store (after any further reads, registrations,
  merges and container creations) every read of \<open>key\<close> returns the same \<open>v\<close> and changes
  nothing, so no constructor runs again. The first read has called the constructor of the
  slot at least once, and exactly once provided the slot is not read again while that read
  runs, that is, provided the constructor does not, directly or through the services it
  reads, read the very slot that is being constructed.
\<close>

theorem memoized:
  assumes sl: "map_of (heap s obj) key = Some (Lazy d Undefined)"
    and run: "get f obj key s = Some (Inr v, s')"
  shows "v \<noteq> Undefined \<and> map_of (heap s' obj) key = Some (Lazy d v)
     \<and> (\<forall>t g. evolves s' t \<longrightarrow> get (Suc g) obj key t = Some (Inr v, t))
     \<and> count_list (invocations s) (obj, key) < count_list (invocations s') (obj, key)
     \<and> (\<not> reenters f obj key s \<longrightarrow>
          count_list (invocations s') (obj, key) = count_list (invocations s) (obj, key) + 1)"
proof -
  from run sl obtain f' where f: "f = Suc f'" by (cases f) auto
  have v: "v \<noteq> Undefined" by (rule get_lazy_defined[OF run sl])
  from run[unfolded f] sl have c: "map_of (heap s' obj) key = Some (Lazy d v)"
    by (cases rule: get_freshE) (auto simp: set_instance_def update_conv')
  have later: "get (Suc g) obj key t = Some (Inr v, t)" if "evolves s' t" for t g
    using extends_cached[OF evolves_extends[OF that] c v] v by (simp add: get_simps)
  from run[unfolded f] sl obtain seen s1 where
    b: "construct f' (ctor d) obj [] (logged obj key s) = Some (Inr seen, s1)"
    and i: "invocations s' = invocations s1"
    by (cases rule: get_freshE) (auto simp: set_instance_def)
  from prefix_count[OF invocations_grow(2)[OF b], of "(obj, key)"] i
  have least: "count_list (invocations s) (obj, key) < count_list (invocations s') (obj, key)"
    by simp
  have once: "count_list (invocations s') (obj, key) = count_list (invocations s) (obj, key) + 1"
    if "\<not> reenters f obj key s"
  proof -
    from that sl have "(obj, key) \<notin> set (reads_construct f' (ctor d) obj [] (logged obj key s))"
      by (simp add: reenters_def f reads_simps)
    from unread_untouched(2)[OF b this] i show ?thesis by simp
  qed
  from v c later least once show ?thesis by blast
qed

text \<open>
  A container with \<open>a\<close> (whose constructor reads \<open>b\<close>) and \<open>b\<close>: the first read of
  \<open>a\<close> constructs both once; the reads after it, also after a further registration,
  return the cached instance.
\<close>

theorem memoized_witness:
  "\<exists>s'. get 3 0 ''a'' (with_services 0 [reader_a, service_b] fresh) = Some (Inr (Instance 1), s')
     \<and> count_list (invocations s') (0, ''a'') = 1
     \<and> get 1 0 ''a'' s' = Some (Inr (Instance 1), s')
     \<and> get 3 0 ''a'' s' = Some (Inr (Instance 1), s')
     \<and> get 1 0 ''a'' (snd (inject 0 service_inject s'))
          = Some (Inr (Instance 1), snd (inject 0 service_inject s'))"
proof -
  let ?s = "with_services 0 [reader_a, service_b] fresh"
  let ?s' = "\<lparr>heap = (\<lambda>_. [])(0 := [(''a'', Lazy reader_a (Instance 1)), (''b'', Lazy service_b (Instance 0))]),
    next_addr = 1, objects = [(''b'', []), (''a'', [(''b'', Instance 0)])],
    invocations = [(0, ''a''), (0, ''b'')], flags = []\<rparr>"
  have sl: "map_of (heap ?s 0) ''a'' = Some (Lazy reader_a Undefined)" by (simp add: run_simps)
  have run: "get 3 0 ''a'' ?s = Some (Inr (Instance 1), ?s')" by (simp add: run_simps)
  have once: "\<not> reenters 3 0 ''a'' ?s" by (simp add: trace_simps run_simps)
  have later: "evolves ?s' (snd (inject 0 service_inject ?s'))"
    by (rule evolves.register[OF evolves.same, of 0 service_inject ?s' "fst (inject 0 service_inject ?s')"])
      simp
  from memoized[OF sl run] once
  have "count_list (invocations ?s') (0, ''a'') = count_list (invocations ?s) (0, ''a'') + 1"
    and again: "\<And>t g. evolves ?s' t \<Longrightarrow> get (Suc g) 0 ''a'' t = Some (Inr (Instance 1), t)"
    by blast+
  moreover have "invocations ?s = []" by (simp add: run_simps)
  ultimately have "count_list (invocations ?s') (0, ''a'') = 1" by simp
  with run again[OF evolves.same, of 0] again[OF evolves.same, of 2] again[OF later, of 0]
  show ?thesis
    by (intro exI[of _ ?s']) (simp add: numeral_3_eq_3)
qed

text \<open>
  The claim as stated fails for a service \<open>a\<close> whose constructor, the first time it is
  called, reads \<open>a\<close> from the container it was given. The slot is registered and
  unread; the first read runs the getter, whose constructor call reads the slot again; the
  variable \<^verbatim>\<open>instance\<close> is still \<open>undefined\<close>, so the inner getter calls the constructor a
  second time and caches instance 0; the outer call then returns and the getter overwrites
  the variable with instance 1. The first read returns instance 1 and has called the
  constructor twice, not once.
\<close>

theorem memoized_counterexample:
  "map_of (heap (with_services 0 [reentrant_a] fresh) 0) ''a'' = Some (Lazy reentrant_a Undefined)
   \<and> map_option fst (get 3 0 ''a'' (with_services 0 [reentrant_a] fresh))
        = Some (Inr (Instance 1))
   \<and> map_option (invocations \<circ> snd) (get 3 0 ''a'' (with_services 0 [reentrant_a] fresh))
        = Some [(0, ''a''), (0, ''a'')]
   \<and> map_option (objects \<circ> snd) (get 3 0 ''a'' (with_services 0 [reentrant_a] fresh))
        = Some [(''a'', []), (''a'', [(''a'', Instance 0)])]"
  by (simp add: run_simps)

text \<open>
  Claim C2 (duplicate registration). If the name of \<open>dependency\<close> is already an own property
  of the container, \<open>inject\<close> raises the error "Duplicate service name: <name>" and the store
  is exactly what it was: every slot, the first registration's included, is untouched, and
  every read gives what it gave before the attempt.
\<close>

theorem inject_duplicate:
  assumes "has s this (getServiceName dependency)"
  shows "inject this dependency s =
      (Inl (Error (''Duplicate service name: '' @ getServiceName dependency)), s)
    \<and> heap (snd (inject this dependency s)) = heap s
    \<and> (\<forall>f obj key. get f obj key (snd (inject this dependency s)) = get f obj key s)"
  using assms by (simp add: inject_def)

text \<open>
  A second service named \<open>a\<close>, whose constructor would throw, is rejected; \<open>a\<close> still
  resolves to an instance of the first.
\<close>

theorem inject_duplicate_witness:
  "inject 0 throwing_a (with_services 0 [service_a] fresh) =
     (Inl (Error ''Duplicate service name: a''), with_services 0 [service_a] fresh)
   \<and> (\<exists>t. get 2 0 ''a'' (snd (inject 0 throwing_a (with_services 0 [service_a] fresh)))
          = Some (Inr (Instance 0), t))"
proof -
  let ?s = "with_services 0 [service_a] fresh"
  have h: "has ?s 0 (getServiceName throwing_a)" by (simp add: run_simps)
  from inject_duplicate[OF h]
  have d: "inject 0 throwing_a ?s = (Inl (Error ''Duplicate service name: a''), ?s)"
    and r: "get 2 0 ''a'' (snd (inject 0 throwing_a ?s)) = get 2 0 ''a'' ?s"
    by (simp_all add: throwing_a_def)
  have "\<exists>t. get 2 0 ''a'' ?s = Some (Inr (Instance 0), t)" by (simp add: run_simps)
  with d r show ?thesis by simp
qed



text \<open>
  Claim C4, as amended (the error of a failed merge). When a name is bound in both
  containers, the merge raises "Containers have duplicated keys: <k>" for exactly one name
  \<open>k\<close>: the first name, in the enumeration order of the source container, that the target
  also has. It does not list the other colliding names.
\<close>

theorem merge_reports_first:
  assumes "has s this k" and "has s other k"
  shows "\<exists>pre k' post. injectContainer this other s =
            (Inl (Error (''Containers have duplicated keys: '' @ k')), s)
          \<and> for_in_keys (heap s other) = pre @ k' # post
          \<and> has s this k' \<and> has s other k'
          \<and> (\<forall>j\<in>set pre. \<not> has s this j)"
proof -
  from assms(2) have "k \<in> set (for_in_keys (heap s other))"
    by (simp add: set_for_in_keys has_iff)
  with assms have "check_keys this other (for_in_keys (heap s other)) s \<noteq> None"
    by (auto simp: check_keys_None)
  then obtain e where e: "check_keys this other (for_in_keys (heap s other)) s = Some e" by auto
  from check_keys_Some[OF e] obtain pre k' post where
    p: "for_in_keys (heap s other) = pre @ k' # post"
      "e = Error (''Containers have duplicated keys: '' @ k')"
      "has s other k'" "has s this k'" "\<forall>j\<in>set pre. \<not> (has s other j \<and> has s this j)"
    by blast
  have "\<forall>j\<in>set pre. has s other j"
  proof
    fix j assume "j \<in> set pre"
    with p(1) have "j \<in> set (for_in_keys (heap s other))" by simp
    then show "has s other j" by (simp add: set_for_in_keys has_iff)
  qed
  with p(5) have "\<forall>j\<in>set pre. \<not> has s this j" by blast
  with p e show ?thesis by (auto simp: injectContainer_def)
qed

text \<open>
  Two containers that both hold \<open>a\<close> and \<open>b\<close>: the error names one common key.
\<close>

theorem merge_reports_first_witness:
  "\<exists>k. injectContainer 1 0 (two_containers [service_a, service_b] [service_b, service_a]) =
       (Inl (Error (''Containers have duplicated keys: '' @ k)),
        two_containers [service_a, service_b] [service_b, service_a])
     \<and> has (two_containers [service_a, service_b] [service_b, service_a]) 0 k
     \<and> has (two_containers [service_a, service_b] [service_b, service_a]) 1 k"
proof -
  let ?s = "two_containers [service_a, service_b] [service_b, service_a]"
  have "has ?s 1 ''b''" "has ?s 0 ''b''" by (simp_all add: run_simps)
  from merge_reports_first[OF this] show ?thesis by blast
qed

text \<open>
  The claim as stated fails there: \<open>b\<close> collides too, and the message names \<open>a\<close>
  only.
\<close>

theorem merge_reports_first_counterexample:
  "injectContainer 1 0 (two_containers [service_a, service_b] [service_b, service_a]) =
     (Inl (Error ''Containers have duplicated keys: a''),
      two_containers [service_a, service_b] [service_b, service_a])
   \<and> has (two_containers [service_a, service_b] [service_b, service_a]) 0 ''b''
   \<and> has (two_containers [service_a, service_b] [service_b, service_a]) 1 ''b''
   \<and> \<not> sublist ''b'' ''Containers have duplicated keys: a''"
proof -
  have "\<not> sublist ''b'' ''Containers have duplicated keys: a''" by code_simp
  then show ?thesis by (simp add: run_simps)
qed

text \<open>
  Claim C5 (merge is atomic). If the two containers share a bound name, the merge raises an
  error and the store is exactly what it was: no binding of the target or of the source is
  added, removed or changed. Moreover a merge fails for no other reason: whenever it raises
  (the own property names of the source being distinct, see \<^const>\<open>wf_heap\<close>), the
  containers share a name and the store is unchanged, so there is no partial merge.
\<close>

theorem merge_atomic:
  "(has s this k \<and> has s other k \<longrightarrow>
      (\<exists>msg. injectContainer this other s = (Inl (Error msg), s)))
   \<and> (distinct (map fst (heap s other)) \<longrightarrow>
      (\<forall>e s'. injectContainer this other s = (Inl e, s') \<longrightarrow>
         s' = s \<and> (\<exists>j. has s this j \<and> has s other j)))"
proof (intro conjI impI allI)
  assume "has s this k \<and> has s other k"
  then show "\<exists>msg. injectContainer this other s = (Inl (Error msg), s)"
    using injectContainer_collision by blast
next
  fix e s'
  assume dist: "distinct (map fst (heap s other))"
    and fails: "injectContainer this other s = (Inl e, s')"
  have shared: "\<exists>j. has s this j \<and> has s other j"
  proof (rule ccontr)
    assume "\<not> ?thesis"
    then have "\<forall>j. \<not> (has s other j \<and> has s this j)" by blast
    from injectContainer_disjoint[OF this dist] fails show False by simp
  qed
  then obtain j where "has s this j" "has s other j" by blast
  from injectContainer_collision[OF this] fails show "s' = s" by auto
  from shared show "\<exists>j. has s this j \<and> has s other j" .
qed

text \<open>
  The merge of two containers that both hold \<open>a\<close> and \<open>b\<close> fails and changes nothing.
\<close>

theorem merge_atomic_witness:
  "\<exists>msg. injectContainer 1 0 (two_containers [service_a, service_b] [service_b, service_a]) =
       (Inl (Error msg), two_containers [service_a, service_b] [service_b, service_a])"
proof -
  let ?s = "two_containers [service_a, service_b] [service_b, service_a]"
  have "has ?s 1 ''b'' \<and> has ?s 0 ''b''" by (simp add: run_simps)
  with merge_atomic[of ?s 1 "''b''" 0] show ?thesis by blast
qed









text \<open>
  Claim C9, as amended (reading an unbound name). If \<open>key\<close> is not an own property of the
  container, reading it raises nothing and leaves the store unchanged. The result is
  \<open>undefined\<close>, except for the names inherited from the class (\<^verbatim>\<open>constructor\<close>,
  \<^verbatim>\<open>inject\<close>, \<^verbatim>\<open>injectContainer\<close>) and from \<^verbatim>\<open>Object.prototype\<close>, for which it is the
  inherited member.
\<close>

theorem read_unbound:
  assumes "\<not> has s obj key"
  shows "get (Suc f) obj key s =
     Some (Inr (if key \<in> set class_members \<union> set object_prototype_members
                then Inherited key else Undefined), s)"
  using assms by (simp add: has_def get_simps inherited_def)

text \<open>
  A name never bound and not inherited reads as \<open>undefined\<close>; an inherited one reads as
  the inherited member.
\<close>

theorem read_unbound_witness:
  "get 1 0 ''logger'' fresh = Some (Inr Undefined, fresh)
   \<and> get 1 0 ''toString'' fresh = Some (Inr (Inherited ''toString''), fresh)"
proof -
  have h: "\<not> has fresh 0 ''logger''" "\<not> has fresh 0 ''toString''"
    by (simp_all add: run_simps)
  from read_unbound[OF h(1), of 0] read_unbound[OF h(2), of 0] show ?thesis
    by (simp add: class_members_def object_prototype_members_def)
qed

text \<open>
  The claim as stated fails for a name of the class: \<^verbatim>\<open>inject\<close> is never bound on a new
  container, and reading it yields the method, not \<open>undefined\<close>.
\<close>

theorem read_unbound_counterexample:
  "\<not> has fresh 0 ''inject''
   \<and> get 1 0 ''inject'' fresh = Some (Inr (Inherited ''inject''), fresh)"
  by (simp add: run_simps)

text \<open>
  Claim C10 (reserved names at run time). Let the service be named \<^verbatim>\<open>inject\<close> or
  \<^verbatim>\<open>injectContainer\<close> and let the container have no own property of that name. Before the
  registration a read of the name yields the inherited method. The registration raises
  nothing and binds the name as an own property holding the memoising getter of the service;
  from then on a read of the name that returns a value never yields the method.
\<close>

theorem reserved_name_shadows:
  assumes "getServiceName d = ''inject'' \<or> getServiceName d = ''injectContainer''"
    and "\<not> has s this (getServiceName d)"
  shows "get (Suc f) this (getServiceName d) s = Some (Inr (Inherited (getServiceName d)), s)
     \<and> (\<exists>s'. inject this d s = (Inr this, s') \<and> has s' this (getServiceName d)
          \<and> map_of (heap s' this) (getServiceName d) = Some (Lazy d Undefined)
          \<and> (\<forall>g v t. get g this (getServiceName d) s' = Some (Inr v, t)
                \<longrightarrow> v \<noteq> Inherited (getServiceName d)))"
proof -
  let ?n = "getServiceName d"
  let ?s' = "s\<lparr>heap := (heap s)(this := heap s this @ [(?n, Lazy d Undefined)])\<rparr>"
  have a: "get (Suc f) this ?n s = Some (Inr (Inherited ?n), s)"
    using assms by (auto simp: has_def get_simps inherited_def class_members_def)
  have b: "inject this d s = (Inr this, ?s')" by (rule inject_fresh[OF assms(2)])
  have c: "map_of (heap ?s' this) ?n = Some (Lazy d Undefined)"
    using assms(2) by (simp add: has_def map_add_def split: option.splits)
  have e: "v \<noteq> Inherited ?n" if "get g this ?n ?s' = Some (Inr v, t)" for g v t
  proof (cases g)
    case 0
    from that[unfolded 0] c show ?thesis by (simp add: get_simps del: get.simps)
  next
    case (Suc g')
    from that[unfolded Suc] c show ?thesis by (cases rule: get_freshE) auto
  qed
  from a b c e show ?thesis by (auto simp: has_def)
qed

text \<open>
  A service named \<^verbatim>\<open>inject\<close> is accepted by a new container and replaces the method.
\<close>

theorem reserved_name_shadows_witness:
  "get 1 0 ''inject'' fresh = Some (Inr (Inherited ''inject''), fresh)
   \<and> (\<exists>s'. inject 0 service_inject fresh = (Inr 0, s') \<and> has s' 0 ''inject''
        \<and> (\<exists>t. get 2 0 ''inject'' s' = Some (Inr (Instance 0), t)))"
proof -
  have n: "getServiceName service_inject = ''inject'' \<or> getServiceName service_inject = ''injectContainer''"
    by (simp add: service_inject_def)
  have h: "\<not> has fresh 0 (getServiceName service_inject)" by (simp add: run_simps)
  from reserved_name_shadows[OF n h, of 0] obtain s' where
    a: "get (Suc 0) 0 (getServiceName service_inject) fresh
          = Some (Inr (Inherited (getServiceName service_inject)), fresh)"
    and b: "inject 0 service_inject fresh = (Inr 0, s')" "has s' 0 (getServiceName service_inject)"
    by blast
  from b(1) have "\<exists>t. get 2 0 ''inject'' s' = Some (Inr (Instance 0), t)"
    by (auto simp: run_simps)
  with a b show ?thesis by (simp add: service_inject_def)
qed

end
